theory Spec2Isabelle
  imports Main "HOL-Library.Signed_Division"
begin

section \<open>Cursors and the store\<close>

text \<open>
  The algorithms of \<^verbatim>\<open>upredalgo.h\<close> are templates over iterator types. A cursor is
  modelled as an address (a natural number) into one store that maps every address to an
  element; dereferencing \<^verbatim>\<open>*i\<close> is \<open>mem i\<close>, the assignment \<^verbatim>\<open>*i = x\<close> is \<open>mem(i := x)\<close>
  and \<^verbatim>\<open>++i\<close> is \<open>i + 1\<close>. Input and output cursors point into the same store, so that an
  output range may overlap the input range, as it does in \<^verbatim>\<open>remove_if\<close>.
  The source's parameter names \<^verbatim>\<open>last\<close> and \<^verbatim>\<open>comp\<close> are constants of HOL and are written
  \<open>lst\<close> and \<open>cmp\<close>.
\<close>

type_synonym 'a store = "nat \<Rightarrow> 'a"

text \<open>The elements of the range \<open>[first, lst)\<close>, in order.\<close>

definition range_of :: "'a store \<Rightarrow> nat \<Rightarrow> nat \<Rightarrow> 'a list" where
  "range_of mem first lst = map mem [first..<lst]"

text \<open>
  Modelled from the spec: \<^verbatim>\<open>distance\<close> is declared elsewhere in uSTL; the spec asks of a
  cursor "the ability to compute the distance between two cursors of the same range". The
  result is signed, as \<^verbatim>\<open>ptrdiff_t\<close> is.
\<close>

definition distance :: "nat \<Rightarrow> nat \<Rightarrow> int" where
  "distance first lst = int lst - int first"

text \<open>
  Modelled from the spec: \<^verbatim>\<open>advance\<close> is declared elsewhere in uSTL; the spec writes the
  midpoint as \<^verbatim>\<open>mid = first + distance(first,last)/2\<close>, "random repositioning by an offset".
\<close>

definition advance :: "nat \<Rightarrow> int \<Rightarrow> nat" where
  "advance i offset = nat (int i + offset)"

section \<open>The binary-search group\<close>

text \<open>
  One iteration of the loop of \<^verbatim>\<open>lower_bound\<close>, on the pair \<open>(first, lst)\<close>. The division
  of C++ truncates towards zero, which is \<open>sdiv\<close>.
\<close>

definition lower_bound_step :: "'a store \<Rightarrow> 'a \<Rightarrow> ('a \<Rightarrow> 'a \<Rightarrow> bool) \<Rightarrow> nat \<times> nat \<Rightarrow> nat \<times> nat" where
  "lower_bound_step mem v cmp s =
     (case s of (first, lst) \<Rightarrow>
        let mid = advance first (distance first lst sdiv 2)
        in if cmp (mem mid) v then (mid + 1, lst) else (first, mid))"

text \<open>
  The loop \<^verbatim>\<open>while (first != last)\<close>, returning \<^verbatim>\<open>first\<close>. The value \<open>None\<close> stands for
  a loop that never ends.
\<close>

partial_function (option) lower_bound_loop :: "'a store \<Rightarrow> 'a \<Rightarrow> ('a \<Rightarrow> 'a \<Rightarrow> bool) \<Rightarrow> nat \<times> nat \<Rightarrow> nat option" where
  "lower_bound_loop mem v cmp s =
     (if fst s \<noteq> snd s then lower_bound_loop mem v cmp (lower_bound_step mem v cmp s)
      else Some (fst s))"

declare lower_bound_loop.simps [code]

definition lower_bound :: "'a store \<Rightarrow> nat \<Rightarrow> nat \<Rightarrow> 'a \<Rightarrow> ('a \<Rightarrow> 'a \<Rightarrow> bool) \<Rightarrow> nat option" where
  "lower_bound mem first lst v cmp = lower_bound_loop mem v cmp (first, lst)"

text \<open>One iteration of the loop of \<^verbatim>\<open>upper_bound\<close>.\<close>

definition upper_bound_step :: "'a store \<Rightarrow> 'a \<Rightarrow> ('a \<Rightarrow> 'a \<Rightarrow> bool) \<Rightarrow> nat \<times> nat \<Rightarrow> nat \<times> nat" where
  "upper_bound_step mem v cmp s =
     (case s of (first, lst) \<Rightarrow>
        let mid = advance first (distance first lst sdiv 2)
        in if cmp v (mem mid) then (first, mid) else (mid + 1, lst))"

text \<open>The loop of \<^verbatim>\<open>upper_bound\<close>, which returns \<^verbatim>\<open>last\<close>.\<close>

partial_function (option) upper_bound_loop :: "'a store \<Rightarrow> 'a \<Rightarrow> ('a \<Rightarrow> 'a \<Rightarrow> bool) \<Rightarrow> nat \<times> nat \<Rightarrow> nat option" where
  "upper_bound_loop mem v cmp s =
     (if fst s \<noteq> snd s then upper_bound_loop mem v cmp (upper_bound_step mem v cmp s)
      else Some (snd s))"

declare upper_bound_loop.simps [code]

definition upper_bound :: "'a store \<Rightarrow> nat \<Rightarrow> nat \<Rightarrow> 'a \<Rightarrow> ('a \<Rightarrow> 'a \<Rightarrow> bool) \<Rightarrow> nat option" where
  "upper_bound mem first lst v cmp = upper_bound_loop mem v cmp (first, lst)"

text \<open>
  \<^verbatim>\<open>binary_search\<close> returns a cursor: \<^verbatim>\<open>last\<close> when the position found by \<open>lower_bound\<close> is
  \<^verbatim>\<open>last\<close> or its element is ordered after the value, and the position found otherwise.
\<close>

definition binary_search :: "'a store \<Rightarrow> nat \<Rightarrow> nat \<Rightarrow> 'a \<Rightarrow> ('a \<Rightarrow> 'a \<Rightarrow> bool) \<Rightarrow> nat option" where
  "binary_search mem first lst v cmp =
     (case lower_bound mem first lst v cmp of
        None \<Rightarrow> None
      | Some found \<Rightarrow> Some (if found = lst \<or> cmp v (mem found) then lst else found))"

text \<open>
  The loop of \<^verbatim>\<open>equal_range\<close>, which steps \<^verbatim>\<open>rv.second\<close> forward while it is not \<^verbatim>\<open>last\<close>
  and its element is not ordered after the value.
\<close>

partial_function (option) equal_range_scan :: "'a store \<Rightarrow> nat \<Rightarrow> 'a \<Rightarrow> ('a \<Rightarrow> 'a \<Rightarrow> bool) \<Rightarrow> nat \<Rightarrow> nat option" where
  "equal_range_scan mem lst v cmp second =
     (if second \<noteq> lst \<and> \<not> cmp v (mem second)
      then equal_range_scan mem lst v cmp (second + 1)
      else Some second)"

declare equal_range_scan.simps [code]

definition equal_range :: "'a store \<Rightarrow> nat \<Rightarrow> nat \<Rightarrow> 'a \<Rightarrow> ('a \<Rightarrow> 'a \<Rightarrow> bool) \<Rightarrow> (nat \<times> nat) option" where
  "equal_range mem first lst v cmp =
     (case lower_bound mem first lst v cmp of
        None \<Rightarrow> None
      | Some lb \<Rightarrow>
          (case equal_range_scan mem lst v cmp lb of
             None \<Rightarrow> None
           | Some second \<Rightarrow> Some (lb, second)))"

section \<open>The linear scans\<close>

text \<open>
  \<^verbatim>\<open>count_if\<close>: the loop with its counter \<^verbatim>\<open>total\<close> (written \<open>total_count\<close>), which starts at 0. The counter is a
  \<^verbatim>\<open>size_t\<close>; it never exceeds the number of addresses of the range, so it is a natural
  number here.
\<close>

partial_function (option) count_if_loop :: "'a store \<Rightarrow> nat \<Rightarrow> nat \<Rightarrow> ('a \<Rightarrow> bool) \<Rightarrow> nat \<Rightarrow> nat option" where
  "count_if_loop mem first lst pred total_count =
     (if first \<noteq> lst
      then count_if_loop mem (first + 1) lst pred (if pred (mem first) then total_count + 1 else total_count)
      else Some total_count)"

declare count_if_loop.simps [code]

definition count_if :: "'a store \<Rightarrow> nat \<Rightarrow> nat \<Rightarrow> ('a \<Rightarrow> bool) \<Rightarrow> nat option" where
  "count_if mem first lst pred = count_if_loop mem first lst pred 0"

text \<open>
  \<^verbatim>\<open>mismatch\<close> steps both cursors while the first range is not exhausted and the predicate
  holds of the two elements, and returns the pair of cursors.
\<close>

partial_function (option) mismatch :: "'a store \<Rightarrow> nat \<Rightarrow> nat \<Rightarrow> nat \<Rightarrow> ('a \<Rightarrow> 'a \<Rightarrow> bool) \<Rightarrow> (nat \<times> nat) option" where
  "mismatch mem first1 last1 first2 cmp =
     (if first1 \<noteq> last1 \<and> cmp (mem first1) (mem first2)
      then mismatch mem (first1 + 1) last1 (first2 + 1) cmp
      else Some (first1, first2))"

declare mismatch.simps [code]

text \<open>
  \<^verbatim>\<open>replace_if\<close> returns nothing; its effect is the store it leaves. The element is
  overwritten where the predicate holds.
\<close>

partial_function (option) replace_if :: "'a store \<Rightarrow> nat \<Rightarrow> nat \<Rightarrow> ('a \<Rightarrow> bool) \<Rightarrow> 'a \<Rightarrow> 'a store option" where
  "replace_if mem first lst pred new_value =
     (if first \<noteq> lst
      then replace_if (if pred (mem first) then mem(first := new_value) else mem)
             (first + 1) lst pred new_value
      else Some mem)"

declare replace_if.simps [code]

text \<open>
  What a call hands back to its caller: the value of a \<^verbatim>\<open>return\<close> statement, or nothing
  when control reaches the end of the function body without one.
\<close>

datatype 'c returned = Returned 'c | No_return_statement

text \<open>
  The loop of \<^verbatim>\<open>replace_copy_if\<close>, which writes one element and steps both cursors in
  each iteration; its result is the store and the output cursor when the loop is left.
\<close>

partial_function (option) replace_copy_if_loop :: "'a store \<Rightarrow> nat \<Rightarrow> nat \<Rightarrow> nat \<Rightarrow> ('a \<Rightarrow> bool) \<Rightarrow> 'a \<Rightarrow> ('a store \<times> nat) option" where
  "replace_copy_if_loop mem first lst result pred new_value =
     (if first \<noteq> lst
      then replace_copy_if_loop (mem(result := (if pred (mem first) then new_value else mem first)))
             (first + 1) lst (result + 1) pred new_value
      else Some (mem, result))"

declare replace_copy_if_loop.simps [code]

text \<open>
  The body of \<^verbatim>\<open>replace_copy_if\<close> is that loop and nothing else: the function is declared
  to return an \<^verbatim>\<open>OutputIterator\<close> and has no \<^verbatim>\<open>return\<close> statement.
\<close>

definition replace_copy_if :: "'a store \<Rightarrow> nat \<Rightarrow> nat \<Rightarrow> nat \<Rightarrow> ('a \<Rightarrow> bool) \<Rightarrow> 'a \<Rightarrow> ('a store \<times> nat returned) option" where
  "replace_copy_if mem first lst result pred new_value =
     (case replace_copy_if_loop mem first lst result pred new_value of
        None \<Rightarrow> None
      | Some (mem', result') \<Rightarrow> Some (mem', No_return_statement))"

text \<open>
  \<^verbatim>\<open>remove_copy_if\<close>: the element is written through \<^verbatim>\<open>result\<close>, and \<^verbatim>\<open>result\<close> stepped, in
  the branch \<^verbatim>\<open>if (pred (*first))\<close>. The store and the final \<^verbatim>\<open>result\<close> are returned.
\<close>

partial_function (option) remove_copy_if :: "'a store \<Rightarrow> nat \<Rightarrow> nat \<Rightarrow> nat \<Rightarrow> ('a \<Rightarrow> bool) \<Rightarrow> ('a store \<times> nat) option" where
  "remove_copy_if mem first lst result pred =
     (if first \<noteq> lst
      then (if pred (mem first)
            then remove_copy_if (mem(result := mem first)) (first + 1) lst (result + 1) pred
            else remove_copy_if mem (first + 1) lst result pred)
      else Some (mem, result))"

declare remove_copy_if.simps [code]

text \<open>\<^verbatim>\<open>remove_if\<close> is \<^verbatim>\<open>remove_copy_if\<close> with the range's own start as the output cursor.\<close>

definition remove_if :: "'a store \<Rightarrow> nat \<Rightarrow> nat \<Rightarrow> ('a \<Rightarrow> bool) \<Rightarrow> ('a store \<times> nat) option" where
  "remove_if mem first lst pred = remove_copy_if mem first lst first pred"

section \<open>Example stores\<close>

text \<open>The sequence of the spec's binary-search scenarios, stored from address 0.\<close>

definition S6 :: "int store" where
  "S6 a = (if a < 6 then [1, 3, 3, 3, 5, 7] ! a else 0)"

text \<open>The sequence of the spec's \<open>remove_if\<close> scenario, stored from address 0.\<close>

definition M5 :: "int store" where
  "M5 a = (if a < 5 then [1, 2, 3, 4, 5] ! a else 0)"

text \<open>The predicate "is even" of that scenario.\<close>

definition is_even :: "int \<Rightarrow> bool" where
  "is_even x = (x mod 2 = 0)"

section \<open>Ordering hypotheses of the binary-search group\<close>

text \<open>
  The spec's contract for an ordering predicate: irreflexive, asymmetric, transitive, and
  transitive over incomparability.
\<close>

definition strict_weak_order :: "('a \<Rightarrow> 'a \<Rightarrow> bool) \<Rightarrow> bool" where
  "strict_weak_order cmp \<longleftrightarrow>
     (\<forall>x. \<not> cmp x x) \<and>
     (\<forall>x y. cmp x y \<longrightarrow> \<not> cmp y x) \<and>
     (\<forall>x y z. cmp x y \<and> cmp y z \<longrightarrow> cmp x z) \<and>
     (\<forall>x y z. \<not> cmp x y \<and> \<not> cmp y x \<and> \<not> cmp y z \<and> \<not> cmp z y \<longrightarrow> \<not> cmp x z \<and> \<not> cmp z x)"

text \<open>
  The spec's sortedness precondition: no element before a position compares greater than an
  element at or after it.
\<close>

definition sorted_range :: "('a \<Rightarrow> 'a \<Rightarrow> bool) \<Rightarrow> 'a store \<Rightarrow> nat \<Rightarrow> nat \<Rightarrow> bool" where
  "sorted_range cmp mem first lst \<longleftrightarrow>
     (\<forall>j\<in>{first..<lst}. \<forall>i\<in>{first..<j}. \<not> cmp (mem j) (mem i))"

text \<open>
  Position \<open>p\<close> is one at which \<open>v\<close> can be inserted while keeping the range ordered: no
  element before \<open>p\<close> is ordered after \<open>v\<close>, and no element from \<open>p\<close> on is ordered before it.
\<close>

definition insertion_point :: "('a \<Rightarrow> 'a \<Rightarrow> bool) \<Rightarrow> 'a store \<Rightarrow> nat \<Rightarrow> nat \<Rightarrow> 'a \<Rightarrow> nat \<Rightarrow> bool" where
  "insertion_point cmp mem first lst v p \<longleftrightarrow>
     first \<le> p \<and> p \<le> lst \<and>
     (\<forall>i\<in>{first..<p}. \<not> cmp v (mem i)) \<and> (\<forall>i\<in>{p..<lst}. \<not> cmp (mem i) v)"

section \<open>Termination of the bisection\<close>

lemma midpoint_bounds:
  assumes "first < lst"
  shows "first \<le> advance first (distance first lst sdiv 2)"
    and "advance first (distance first lst sdiv 2) < lst"
proof -
  have h: "(int lst - int first) sdiv 2 = (int lst - int first) div 2"
    using assms by (simp add: signed_divide_int_def sgn_if)
  show "first \<le> advance first (distance first lst sdiv 2)"
    unfolding advance_def distance_def h using assms by linarith
  show "advance first (distance first lst sdiv 2) < lst"
    unfolding advance_def distance_def h using assms by linarith
qed

lemma lower_bound_step_shrinks:
  assumes "first < lst" and "lower_bound_step mem v cmp (first, lst) = (f', l')"
  shows "first \<le> f' \<and> f' \<le> l' \<and> l' \<le> lst \<and> l' - f' < lst - first"
  using assms midpoint_bounds [OF assms(1)]
  by (auto simp: lower_bound_step_def Let_def split: if_splits)

lemma upper_bound_step_shrinks:
  assumes "first < lst" and "upper_bound_step mem v cmp (first, lst) = (f', l')"
  shows "first \<le> f' \<and> f' \<le> l' \<and> l' \<le> lst \<and> l' - f' < lst - first"
  using assms midpoint_bounds [OF assms(1)]
  by (auto simp: upper_bound_step_def Let_def split: if_splits)

lemma lower_bound_loop_returns:
  "first \<le> lst \<Longrightarrow> \<exists>p. lower_bound_loop mem v cmp (first, lst) = Some p"
proof (induction "lst - first" arbitrary: first lst rule: less_induct)
  case less
  show ?case
  proof (cases "first = lst")
    case True
    then show ?thesis by (simp add: lower_bound_loop.simps)
  next
    case False
    with less.prems have lt: "first < lst" by simp
    obtain f' l' where st: "lower_bound_step mem v cmp (first, lst) = (f', l')"
      by (cases "lower_bound_step mem v cmp (first, lst)")
    from lower_bound_step_shrinks [OF lt st]
    have "\<exists>p. lower_bound_loop mem v cmp (f', l') = Some p"
      by (intro less.hyps) auto
    then show ?thesis
      using False st by (subst lower_bound_loop.simps) simp
  qed
qed

lemma upper_bound_loop_returns:
  "first \<le> lst \<Longrightarrow> \<exists>p. upper_bound_loop mem v cmp (first, lst) = Some p"
proof (induction "lst - first" arbitrary: first lst rule: less_induct)
  case less
  show ?case
  proof (cases "first = lst")
    case True
    then show ?thesis by (simp add: upper_bound_loop.simps)
  next
    case False
    with less.prems have lt: "first < lst" by simp
    obtain f' l' where st: "upper_bound_step mem v cmp (first, lst) = (f', l')"
      by (cases "upper_bound_step mem v cmp (first, lst)")
    from upper_bound_step_shrinks [OF lt st]
    have "\<exists>p. upper_bound_loop mem v cmp (f', l') = Some p"
      by (intro less.hyps) auto
    then show ?thesis
      using False st by (subst upper_bound_loop.simps) simp
  qed
qed


section \<open>Correctness of the bisection\<close>

lemma strict_weak_order_cases:
  assumes "strict_weak_order cmp" and "cmp x y"
  shows "cmp x z \<or> cmp z y"
  using assms unfolding strict_weak_order_def by metis

lemma sorted_range_below:
  assumes "strict_weak_order cmp" and "sorted_range cmp mem first lst"
    and "first \<le> i" and "i < j" and "j < lst" and "cmp (mem j) v"
  shows "cmp (mem i) v"
proof -
  have "\<not> cmp (mem j) (mem i)"
    using assms(2-5) by (simp add: sorted_range_def)
  with strict_weak_order_cases [OF assms(1) assms(6), of "mem i"] show ?thesis
    by simp
qed

lemma sorted_range_above:
  assumes "strict_weak_order cmp" and "sorted_range cmp mem first lst"
    and "first \<le> i" and "i < j" and "j < lst" and "cmp v (mem i)"
  shows "cmp v (mem j)"
proof -
  have "\<not> cmp (mem j) (mem i)"
    using assms(2-5) by (simp add: sorted_range_def)
  with strict_weak_order_cases [OF assms(1) assms(6), of "mem j"] show ?thesis
    by simp
qed

lemma lower_bound_step_eq:
  "lower_bound_step mem v cmp (first, lst) =
     (if cmp (mem (advance first (distance first lst sdiv 2))) v
      then (advance first (distance first lst sdiv 2) + 1, lst)
      else (first, advance first (distance first lst sdiv 2)))"
  by (simp add: lower_bound_step_def Let_def)

lemma upper_bound_step_eq:
  "upper_bound_step mem v cmp (first, lst) =
     (if cmp v (mem (advance first (distance first lst sdiv 2)))
      then (first, advance first (distance first lst sdiv 2))
      else (advance first (distance first lst sdiv 2) + 1, lst))"
  by (simp add: upper_bound_step_def Let_def)

text \<open>
  The loop of \<open>lower_bound\<close> finds the partition point of any range in which the elements
  ordered before \<open>v\<close> come first.
\<close>

lemma lower_bound_loop_partition:
  assumes "first \<le> lst"
    and "\<And>i j. first \<le> i \<Longrightarrow> i < j \<Longrightarrow> j < lst \<Longrightarrow> cmp (mem j) v \<Longrightarrow> cmp (mem i) v"
  shows "\<exists>p. lower_bound_loop mem v cmp (first, lst) = Some p \<and> first \<le> p \<and> p \<le> lst \<and>
           (\<forall>i. first \<le> i \<and> i < p \<longrightarrow> cmp (mem i) v) \<and>
           (\<forall>i. p \<le> i \<and> i < lst \<longrightarrow> \<not> cmp (mem i) v)"
  using assms
proof (induction "lst - first" arbitrary: first lst rule: less_induct)
  case less
  show ?case
  proof (cases "first = lst")
    case True
    then show ?thesis by (subst lower_bound_loop.simps) auto
  next
    case False
    with less.prems(1) have lt: "first < lst" by simp
    define mid where "mid = advance first (distance first lst sdiv 2)"
    have mid: "first \<le> mid" "mid < lst"
      using midpoint_bounds [OF lt] by (simp_all add: mid_def)
    show ?thesis
    proof (cases "cmp (mem mid) v")
      case True
      have unfold: "lower_bound_loop mem v cmp (first, lst) = lower_bound_loop mem v cmp (mid + 1, lst)"
        using False True
        by (subst lower_bound_loop.simps) (simp add: lower_bound_step_eq mid_def)
      have "\<exists>p. lower_bound_loop mem v cmp (mid + 1, lst) = Some p \<and> mid + 1 \<le> p \<and> p \<le> lst \<and>
           (\<forall>i. mid + 1 \<le> i \<and> i < p \<longrightarrow> cmp (mem i) v) \<and>
           (\<forall>i. p \<le> i \<and> i < lst \<longrightarrow> \<not> cmp (mem i) v)"
      proof (rule less.hyps)
        show "lst - (mid + 1) < lst - first" using mid by linarith
        show "mid + 1 \<le> lst" using mid by simp
        show "\<And>i j. mid + 1 \<le> i \<Longrightarrow> i < j \<Longrightarrow> j < lst \<Longrightarrow> cmp (mem j) v \<Longrightarrow> cmp (mem i) v"
          using less.prems(2) mid by simp
      qed
      then obtain p where p: "lower_bound_loop mem v cmp (mid + 1, lst) = Some p"
        "mid + 1 \<le> p" "p \<le> lst"
        "\<forall>i. mid + 1 \<le> i \<and> i < p \<longrightarrow> cmp (mem i) v"
        "\<forall>i. p \<le> i \<and> i < lst \<longrightarrow> \<not> cmp (mem i) v"
        by blast
      have low: "cmp (mem i) v" if "first \<le> i" "i < p" for i
      proof (cases "i < mid")
        case True
        then show ?thesis using less.prems(2) [OF that(1) True mid(2)] \<open>cmp (mem mid) v\<close> by simp
      next
        case False
        show ?thesis
        proof (cases "i = mid")
          case True
          then show ?thesis using \<open>cmp (mem mid) v\<close> by simp
        next
          case False
          with \<open>\<not> i < mid\<close> have "mid + 1 \<le> i" by simp
          then show ?thesis using p(4) that(2) by simp
        qed
      qed
      show ?thesis
        unfolding unfold using p mid low by auto
    next
      case nc: False
      have unfold: "lower_bound_loop mem v cmp (first, lst) = lower_bound_loop mem v cmp (first, mid)"
        using False nc
        by (subst lower_bound_loop.simps) (simp add: lower_bound_step_eq mid_def)
      have "\<exists>p. lower_bound_loop mem v cmp (first, mid) = Some p \<and> first \<le> p \<and> p \<le> mid \<and>
           (\<forall>i. first \<le> i \<and> i < p \<longrightarrow> cmp (mem i) v) \<and>
           (\<forall>i. p \<le> i \<and> i < mid \<longrightarrow> \<not> cmp (mem i) v)"
      proof (rule less.hyps)
        show "mid - first < lst - first" using mid by linarith
        show "first \<le> mid" using mid by simp
        show "\<And>i j. first \<le> i \<Longrightarrow> i < j \<Longrightarrow> j < mid \<Longrightarrow> cmp (mem j) v \<Longrightarrow> cmp (mem i) v"
          using less.prems(2) mid by simp
      qed
      then obtain p where p: "lower_bound_loop mem v cmp (first, mid) = Some p"
        "first \<le> p" "p \<le> mid"
        "\<forall>i. first \<le> i \<and> i < p \<longrightarrow> cmp (mem i) v"
        "\<forall>i. p \<le> i \<and> i < mid \<longrightarrow> \<not> cmp (mem i) v"
        by blast
      have high: "\<not> cmp (mem i) v" if "p \<le> i" "i < lst" for i
      proof (cases "i < mid")
        case True
        then show ?thesis using p(5) that(1) by simp
      next
        case False
        show ?thesis
        proof (cases "i = mid")
          case True
          then show ?thesis using nc by simp
        next
          case False
          with \<open>\<not> i < mid\<close> have "mid < i" by simp
          then show ?thesis using less.prems(2) [OF mid(1) _ that(2)] nc by blast
        qed
      qed
      show ?thesis
        unfolding unfold using p mid high by auto
    qed
  qed
qed


text \<open>
  The loop of \<open>upper_bound\<close> takes the same steps as the loop of \<open>lower_bound\<close> run with the
  negated, flipped comparison.
\<close>

lemma upper_bound_step_as_lower:
  "upper_bound_step mem v cmp s = lower_bound_step mem v (\<lambda>e w. \<not> cmp w e) s"
  by (simp add: upper_bound_step_def lower_bound_step_def Let_def split: prod.split)

lemma upper_bound_loop_as_lower:
  "first \<le> lst \<Longrightarrow>
   upper_bound_loop mem v cmp (first, lst) = lower_bound_loop mem v (\<lambda>e w. \<not> cmp w e) (first, lst)"
proof (induction "lst - first" arbitrary: first lst rule: less_induct)
  case less
  show ?case
  proof (cases "first = lst")
    case True
    then show ?thesis
      by (simp add: upper_bound_loop.simps lower_bound_loop.simps)
  next
    case False
    with less.prems have lt: "first < lst" by simp
    obtain f' l' where st: "upper_bound_step mem v cmp (first, lst) = (f', l')"
      by (cases "upper_bound_step mem v cmp (first, lst)")
    from upper_bound_step_shrinks [OF lt st]
    have "upper_bound_loop mem v cmp (f', l') = lower_bound_loop mem v (\<lambda>e w. \<not> cmp w e) (f', l')"
      by (intro less.hyps) auto
    moreover have "upper_bound_loop mem v cmp (first, lst) = upper_bound_loop mem v cmp (f', l')"
      using False st by (subst upper_bound_loop.simps) simp
    moreover have "lower_bound_loop mem v (\<lambda>e w. \<not> cmp w e) (first, lst)
        = lower_bound_loop mem v (\<lambda>e w. \<not> cmp w e) (f', l')"
      using False st
      by (subst lower_bound_loop.simps) (simp add: upper_bound_step_as_lower [symmetric])
    ultimately show ?thesis by simp
  qed
qed

lemma upper_bound_loop_partition:
  assumes "first \<le> lst"
    and "\<And>i j. first \<le> i \<Longrightarrow> i < j \<Longrightarrow> j < lst \<Longrightarrow> cmp v (mem i) \<Longrightarrow> cmp v (mem j)"
  shows "\<exists>p. upper_bound_loop mem v cmp (first, lst) = Some p \<and> first \<le> p \<and> p \<le> lst \<and>
           (\<forall>i. first \<le> i \<and> i < p \<longrightarrow> \<not> cmp v (mem i)) \<and>
           (\<forall>i. p \<le> i \<and> i < lst \<longrightarrow> cmp v (mem i))"
proof -
  have part: "\<And>i j. first \<le> i \<Longrightarrow> i < j \<Longrightarrow> j < lst \<Longrightarrow> \<not> cmp v (mem j) \<Longrightarrow> \<not> cmp v (mem i)"
    using assms(2) by blast
  show ?thesis
    using lower_bound_loop_partition [of first lst "\<lambda>e w. \<not> cmp w e" mem v, OF assms(1) part]
    by (simp add: upper_bound_loop_as_lower [OF assms(1)])
qed

lemma lower_bound_sorted:
  assumes "first \<le> lst" and "strict_weak_order cmp" and "sorted_range cmp mem first lst"
  shows "\<exists>p. lower_bound mem first lst v cmp = Some p \<and> first \<le> p \<and> p \<le> lst \<and>
           (\<forall>i. first \<le> i \<and> i < p \<longrightarrow> cmp (mem i) v) \<and>
           (\<forall>i. p \<le> i \<and> i < lst \<longrightarrow> \<not> cmp (mem i) v)"
  unfolding lower_bound_def
  using sorted_range_below [OF assms(2,3)]
  by (intro lower_bound_loop_partition [OF assms(1)]) blast

lemma upper_bound_sorted:
  assumes "first \<le> lst" and "strict_weak_order cmp" and "sorted_range cmp mem first lst"
  shows "\<exists>p. upper_bound mem first lst v cmp = Some p \<and> first \<le> p \<and> p \<le> lst \<and>
           (\<forall>i. first \<le> i \<and> i < p \<longrightarrow> \<not> cmp v (mem i)) \<and>
           (\<forall>i. p \<le> i \<and> i < lst \<longrightarrow> cmp v (mem i))"
  unfolding upper_bound_def
  using sorted_range_above [OF assms(2,3)]
  by (intro upper_bound_loop_partition [OF assms(1)]) blast

lemma strict_weak_order_asym:
  assumes "strict_weak_order cmp" and "cmp x y"
  shows "\<not> cmp y x"
  using assms unfolding strict_weak_order_def by blast

lemma equal_range_scan_stops:
  assumes "s \<le> u" and "\<forall>i. s \<le> i \<and> i < u \<longrightarrow> i \<noteq> lst \<and> \<not> cmp v (mem i)"
    and "u = lst \<or> cmp v (mem u)"
  shows "equal_range_scan mem lst v cmp s = Some u"
  using assms
proof (induction "u - s" arbitrary: s rule: less_induct)
  case less
  show ?case
  proof (cases "s = u")
    case True
    then show ?thesis
      using less.prems(3) by (subst equal_range_scan.simps) auto
  next
    case False
    with less.prems(1) have lt: "s < u" by simp
    with less.prems(2) have go: "s \<noteq> lst \<and> \<not> cmp v (mem s)" by simp
    have "equal_range_scan mem lst v cmp (s + 1) = Some u"
    proof (rule less.hyps)
      show "u - (s + 1) < u - s" using lt by simp
      show "s + 1 \<le> u" using lt by simp
      show "\<forall>i. s + 1 \<le> i \<and> i < u \<longrightarrow> i \<noteq> lst \<and> \<not> cmp v (mem i)"
        using less.prems(2) by simp
      show "u = lst \<or> cmp v (mem u)" by (rule less.prems(3))
    qed
    then show ?thesis
      using go by (subst equal_range_scan.simps) simp
  qed
qed

section \<open>The linear scans on a valid range\<close>

lemma replace_if_effect:
  "first \<le> lst \<Longrightarrow>
   replace_if mem first lst pred new_value =
     Some (\<lambda>a. if first \<le> a \<and> a < lst \<and> pred (mem a) then new_value else mem a)"
proof (induction "lst - first" arbitrary: first mem rule: less_induct)
  case less
  show ?case
  proof (cases "first = lst")
    case True
    then show ?thesis
      by (subst replace_if.simps) (auto simp: fun_eq_iff)
  next
    case False
    with less.prems have lt: "first < lst" by simp
    define mem1 where "mem1 = (if pred (mem first) then mem(first := new_value) else mem)"
    have "replace_if mem1 (first + 1) lst pred new_value =
        Some (\<lambda>a. if first + 1 \<le> a \<and> a < lst \<and> pred (mem1 a) then new_value else mem1 a)"
      by (rule less.hyps) (use lt in simp_all)
    moreover have "(\<lambda>a. if first + 1 \<le> a \<and> a < lst \<and> pred (mem1 a) then new_value else mem1 a)
        = (\<lambda>a. if first \<le> a \<and> a < lst \<and> pred (mem a) then new_value else mem a)"
    proof
      fix a
      show "(if first + 1 \<le> a \<and> a < lst \<and> pred (mem1 a) then new_value else mem1 a)
          = (if first \<le> a \<and> a < lst \<and> pred (mem a) then new_value else mem a)"
        using lt by (cases "a = first") (auto simp: mem1_def)
    qed
    ultimately show ?thesis
      using False by (subst replace_if.simps) (simp add: mem1_def)
  qed
qed

lemma mismatch_offset:
  "first1 \<le> last1 \<Longrightarrow>
   \<exists>n. mismatch mem first1 last1 first2 cmp = Some (first1 + n, first2 + n) \<and>
       first1 + n \<le> last1 \<and>
       (\<forall>k<n. cmp (mem (first1 + k)) (mem (first2 + k))) \<and>
       (first1 + n = last1 \<or> \<not> cmp (mem (first1 + n)) (mem (first2 + n)))"
proof (induction "last1 - first1" arbitrary: first1 first2 rule: less_induct)
  case less
  show ?case
  proof (cases "first1 \<noteq> last1 \<and> cmp (mem first1) (mem first2)")
    case False
    then have "mismatch mem first1 last1 first2 cmp = Some (first1 + 0, first2 + 0)"
      by (subst mismatch.simps) auto
    moreover have "first1 + 0 = last1 \<or> \<not> cmp (mem (first1 + 0)) (mem (first2 + 0))"
      using False by auto
    ultimately show ?thesis
      using less.prems by (intro exI [of _ 0]) simp
  next
    case True
    with less.prems have lt: "first1 < last1" by simp
    have "\<exists>n. mismatch mem (first1 + 1) last1 (first2 + 1) cmp
          = Some (first1 + 1 + n, first2 + 1 + n) \<and>
        first1 + 1 + n \<le> last1 \<and>
        (\<forall>k<n. cmp (mem (first1 + 1 + k)) (mem (first2 + 1 + k))) \<and>
        (first1 + 1 + n = last1 \<or> \<not> cmp (mem (first1 + 1 + n)) (mem (first2 + 1 + n)))"
      by (rule less.hyps) (use lt in simp_all)
    then obtain n where n: "mismatch mem (first1 + 1) last1 (first2 + 1) cmp
          = Some (first1 + 1 + n, first2 + 1 + n)"
        "first1 + 1 + n \<le> last1"
        "\<forall>k<n. cmp (mem (first1 + 1 + k)) (mem (first2 + 1 + k))"
        "first1 + 1 + n = last1 \<or> \<not> cmp (mem (first1 + 1 + n)) (mem (first2 + 1 + n))"
      by blast
    have m: "mismatch mem first1 last1 first2 cmp = Some (first1 + Suc n, first2 + Suc n)"
      using True n(1) by (subst mismatch.simps) simp
    have pairs: "cmp (mem (first1 + k)) (mem (first2 + k))" if "k < Suc n" for k
    proof (cases k)
      case 0
      then show ?thesis using True by simp
    next
      case (Suc j)
      with that have "j < n" by simp
      with n(3) have "cmp (mem (first1 + 1 + j)) (mem (first2 + 1 + j))" by blast
      then show ?thesis using Suc by simp
    qed
    show ?thesis
      using m n(2,4) pairs by (intro exI [of _ "Suc n"]) simp
  qed
qed

lemma range_of_Cons:
  "first < lst \<Longrightarrow> range_of mem first lst = mem first # range_of mem (first + 1) lst"
  by (simp add: range_of_def upt_conv_Cons)

lemma range_of_empty:
  "range_of mem first first = []"
  by (simp add: range_of_def)

lemma range_of_update_outside:
  "a < first \<or> lst \<le> a \<Longrightarrow> range_of (mem(a := x)) first lst = range_of mem first lst"
  by (auto simp: range_of_def)

text \<open>
  What the loop of \<open>remove_copy_if\<close> does on a valid range whose output cursor is not
  inside the part of the range still to be read: it writes, in order, the elements that
  satisfy the predicate, and returns the cursor past the last of them.
\<close>

lemma remove_copy_if_effect:
  assumes "first \<le> lst" and "result \<le> first \<or> lst \<le> result"
  shows "\<exists>mem'. remove_copy_if mem first lst result pred
             = Some (mem', result + length (filter pred (range_of mem first lst))) \<and>
           range_of mem' result (result + length (filter pred (range_of mem first lst)))
             = filter pred (range_of mem first lst) \<and>
           (\<forall>a. a < result \<longrightarrow> mem' a = mem a)"
  using assms
proof (induction "lst - first" arbitrary: first result mem rule: less_induct)
  case less
  show ?case
  proof (cases "first = lst")
    case True
    then show ?thesis
      by (subst remove_copy_if.simps) (simp add: range_of_empty)
  next
    case False
    with less.prems(1) have lt: "first < lst" by simp
    note split = range_of_Cons [OF lt, of mem]
    show ?thesis
    proof (cases "pred (mem first)")
      case False
      have "\<exists>mem'. remove_copy_if mem (first + 1) lst result pred
             = Some (mem', result + length (filter pred (range_of mem (first + 1) lst))) \<and>
           range_of mem' result (result + length (filter pred (range_of mem (first + 1) lst)))
             = filter pred (range_of mem (first + 1) lst) \<and>
           (\<forall>a. a < result \<longrightarrow> mem' a = mem a)"
        by (rule less.hyps) (use lt less.prems(2) in auto)
      moreover have "remove_copy_if mem first lst result pred
          = remove_copy_if mem (first + 1) lst result pred"
        using lt False by (subst remove_copy_if.simps) simp
      ultimately show ?thesis
        using False by (simp add: split)
    next
      case True
      define mem1 where "mem1 = mem(result := mem first)"
      define k where "k = length (filter pred (range_of mem (first + 1) lst))"
      have same: "range_of mem1 (first + 1) lst = range_of mem (first + 1) lst"
        unfolding mem1_def
        by (rule range_of_update_outside) (use less.prems(2) in auto)
      have "\<exists>mem'. remove_copy_if mem1 (first + 1) lst (result + 1) pred
             = Some (mem', result + 1 + length (filter pred (range_of mem1 (first + 1) lst))) \<and>
           range_of mem' (result + 1)
               (result + 1 + length (filter pred (range_of mem1 (first + 1) lst)))
             = filter pred (range_of mem1 (first + 1) lst) \<and>
           (\<forall>a. a < result + 1 \<longrightarrow> mem' a = mem1 a)"
        by (rule less.hyps) (use lt less.prems(2) in auto)
      then obtain mem' where
        r: "remove_copy_if mem1 (first + 1) lst (result + 1) pred = Some (mem', result + 1 + k)"
        and out: "range_of mem' (result + 1) (result + 1 + k)
             = filter pred (range_of mem (first + 1) lst)"
        and frame: "\<forall>a. a < result + 1 \<longrightarrow> mem' a = mem1 a"
        unfolding same k_def by blast
      have call: "remove_copy_if mem first lst result pred = Some (mem', result + Suc k)"
        using lt True r by (subst remove_copy_if.simps) (simp add: mem1_def)
      have len: "length (filter pred (range_of mem first lst)) = Suc k"
        using True by (simp add: split k_def)
      have head: "mem' result = mem first"
        using frame by (simp add: mem1_def)
      have "range_of mem' result (result + Suc k) = mem' result # range_of mem' (result + 1) (result + 1 + k)"
        using range_of_Cons [of result "result + Suc k" mem'] by simp
      then have res: "range_of mem' result (result + Suc k) = filter pred (range_of mem first lst)"
        using True out by (simp add: head split)
      have fr: "\<forall>a. a < result \<longrightarrow> mem' a = mem a"
        using frame by (simp add: mem1_def)
      show ?thesis
        unfolding len using call res fr by blast
    qed
  qed
qed

lemma remove_if_effect:
  assumes "first \<le> lst"
  shows "\<exists>mem'. remove_if mem first lst pred
             = Some (mem', first + length (filter pred (range_of mem first lst))) \<and>
           range_of mem' first (first + length (filter pred (range_of mem first lst)))
             = filter pred (range_of mem first lst)"
  using remove_copy_if_effect [OF assms, of first mem pred]
  unfolding remove_if_def by blast

lemma count_if_loop_effect:
  "first \<le> lst \<Longrightarrow>
   count_if_loop mem first lst pred total_count
     = Some (total_count + length (filter pred (range_of mem first lst)))"
proof (induction "lst - first" arbitrary: first total_count rule: less_induct)
  case less
  show ?case
  proof (cases "first = lst")
    case True
    then show ?thesis
      by (subst count_if_loop.simps) (simp add: range_of_empty)
  next
    case False
    with less.prems have lt: "first < lst" by simp
    have "count_if_loop mem (first + 1) lst pred (if pred (mem first) then total_count + 1 else total_count)
        = Some ((if pred (mem first) then total_count + 1 else total_count)
            + length (filter pred (range_of mem (first + 1) lst)))"
      by (rule less.hyps) (use lt in simp_all)
    then show ?thesis
      using lt by (subst count_if_loop.simps) (simp add: range_of_Cons [OF lt])
  qed
qed

lemma count_if_effect:
  "first \<le> lst \<Longrightarrow> count_if mem first lst pred = Some (length (filter pred (range_of mem first lst)))"
  by (simp add: count_if_def count_if_loop_effect)

text \<open>
  The loop of \<open>replace_copy_if\<close> on a valid range whose output cursor is not inside the
  part of the range still to be read: one element written for each element read, and the
  output cursor stepped as often.
\<close>

lemma replace_copy_if_loop_effect:
  assumes "first \<le> lst" and "result \<le> first \<or> lst \<le> result"
  shows "\<exists>mem'. replace_copy_if_loop mem first lst result pred new_value
             = Some (mem', result + (lst - first)) \<and>
           range_of mem' result (result + (lst - first))
             = map (\<lambda>x. if pred x then new_value else x) (range_of mem first lst) \<and>
           (\<forall>a. a < result \<longrightarrow> mem' a = mem a)"
  using assms
proof (induction "lst - first" arbitrary: first result mem rule: less_induct)
  case less
  show ?case
  proof (cases "first = lst")
    case True
    then show ?thesis
      by (subst replace_copy_if_loop.simps) (simp add: range_of_empty)
  next
    case False
    with less.prems(1) have lt: "first < lst" by simp
    define w where "w = (if pred (mem first) then new_value else mem first)"
    define mem1 where "mem1 = mem(result := w)"
    define n where "n = lst - (first + 1)"
    have sz: "lst - first = Suc n"
      using lt by (simp add: n_def)
    have same: "range_of mem1 (first + 1) lst = range_of mem (first + 1) lst"
      unfolding mem1_def
      by (rule range_of_update_outside) (use less.prems(2) in auto)
    have "\<exists>mem'. replace_copy_if_loop mem1 (first + 1) lst (result + 1) pred new_value
             = Some (mem', result + 1 + (lst - (first + 1))) \<and>
           range_of mem' (result + 1) (result + 1 + (lst - (first + 1)))
             = map (\<lambda>x. if pred x then new_value else x) (range_of mem1 (first + 1) lst) \<and>
           (\<forall>a. a < result + 1 \<longrightarrow> mem' a = mem1 a)"
      by (rule less.hyps) (use lt less.prems(2) in auto)
    then obtain mem' where
      r: "replace_copy_if_loop mem1 (first + 1) lst (result + 1) pred new_value
            = Some (mem', result + 1 + n)"
      and out: "range_of mem' (result + 1) (result + 1 + n)
            = map (\<lambda>x. if pred x then new_value else x) (range_of mem (first + 1) lst)"
      and frame: "\<forall>a. a < result + 1 \<longrightarrow> mem' a = mem1 a"
      unfolding same n_def by blast
    have call: "replace_copy_if_loop mem first lst result pred new_value
        = Some (mem', result + Suc n)"
      using lt r by (subst replace_copy_if_loop.simps) (simp add: mem1_def w_def)
    have head: "mem' result = w"
      using frame by (simp add: mem1_def)
    have "range_of mem' result (result + Suc n) = mem' result # range_of mem' (result + 1) (result + 1 + n)"
      using range_of_Cons [of result "result + Suc n" mem'] by simp
    then have res: "range_of mem' result (result + Suc n)
        = map (\<lambda>x. if pred x then new_value else x) (range_of mem first lst)"
      using out by (simp add: head w_def range_of_Cons [OF lt])
    have fr: "\<forall>a. a < result \<longrightarrow> mem' a = mem a"
      using frame by (simp add: mem1_def)
    show ?thesis
      unfolding sz using call res fr by blast
  qed
qed

text \<open>The function itself then ends without a \<^verbatim>\<open>return\<close> statement.\<close>

lemma replace_copy_if_effect:
  assumes "first \<le> lst" and "result \<le> first \<or> lst \<le> result"
  shows "\<exists>mem'. replace_copy_if mem first lst result pred new_value
             = Some (mem', No_return_statement) \<and>
           range_of mem' result (result + (lst - first))
             = map (\<lambda>x. if pred x then new_value else x) (range_of mem first lst)"
  using replace_copy_if_loop_effect [OF assms, of mem pred new_value]
  by (auto simp: replace_copy_if_def)

section \<open>Claims about the binary-search group\<close>

text \<open>
  C8. On every valid range \<open>first \<le> lst\<close>, of any length, with any value and any
  comparison, the loop of \<open>lower_bound\<close> and the loop of \<open>upper_bound\<close> return. While the range is not
  empty, one iteration leaves a valid range of strictly smaller distance. On a range of
  one element the range is empty after one iteration, that is after one comparison, and on
  an empty range each loop returns at once, without an iteration.
\<close>

theorem bisection_terminates:
  assumes "first \<le> lst"
  shows "(\<exists>p. lower_bound mem first lst v cmp = Some p) \<and>
         (\<exists>p. upper_bound mem first lst v cmp = Some p) \<and>
         (first \<noteq> lst \<longrightarrow>
            (case lower_bound_step mem v cmp (first, lst) of
               (f', l') \<Rightarrow> 0 \<le> distance f' l' \<and> distance f' l' < distance first lst) \<and>
            (case upper_bound_step mem v cmp (first, lst) of
               (f', l') \<Rightarrow> 0 \<le> distance f' l' \<and> distance f' l' < distance first lst)) \<and>
         (distance first lst = 1 \<longrightarrow>
            (case lower_bound_step mem v cmp (first, lst) of (f', l') \<Rightarrow> f' = l') \<and>
            (case upper_bound_step mem v cmp (first, lst) of (f', l') \<Rightarrow> f' = l')) \<and>
         (first = lst \<longrightarrow>
            lower_bound mem first lst v cmp = Some first \<and>
            upper_bound mem first lst v cmp = Some lst)"
proof -
  have ret: "(\<exists>p. lower_bound mem first lst v cmp = Some p) \<and>
             (\<exists>p. upper_bound mem first lst v cmp = Some p)"
    using lower_bound_loop_returns [OF assms, of mem v cmp]
      upper_bound_loop_returns [OF assms, of mem v cmp]
    by (simp add: lower_bound_def upper_bound_def)
  have shrink: "(case lower_bound_step mem v cmp (first, lst) of
               (f', l') \<Rightarrow> 0 \<le> distance f' l' \<and> distance f' l' < distance first lst) \<and>
            (case upper_bound_step mem v cmp (first, lst) of
               (f', l') \<Rightarrow> 0 \<le> distance f' l' \<and> distance f' l' < distance first lst)"
    if "first \<noteq> lst"
  proof -
    have lt: "first < lst" using assms that by simp
    obtain f1 l1 where s1: "lower_bound_step mem v cmp (first, lst) = (f1, l1)"
      by (cases "lower_bound_step mem v cmp (first, lst)")
    obtain f2 l2 where s2: "upper_bound_step mem v cmp (first, lst) = (f2, l2)"
      by (cases "upper_bound_step mem v cmp (first, lst)")
    show ?thesis
      using lower_bound_step_shrinks [OF lt s1] upper_bound_step_shrinks [OF lt s2]
      by (simp add: s1 s2 distance_def) linarith
  qed
  have one: "(case lower_bound_step mem v cmp (first, lst) of (f', l') \<Rightarrow> f' = l') \<and>
            (case upper_bound_step mem v cmp (first, lst) of (f', l') \<Rightarrow> f' = l')"
    if "distance first lst = 1"
  proof -
    have lt: "first < lst" and sz: "lst - first = 1"
      using that by (simp_all add: distance_def)
    obtain f1 l1 where s1: "lower_bound_step mem v cmp (first, lst) = (f1, l1)"
      by (cases "lower_bound_step mem v cmp (first, lst)")
    obtain f2 l2 where s2: "upper_bound_step mem v cmp (first, lst) = (f2, l2)"
      by (cases "upper_bound_step mem v cmp (first, lst)")
    show ?thesis
      using lower_bound_step_shrinks [OF lt s1] upper_bound_step_shrinks [OF lt s2] sz
      by (simp add: s1 s2)
  qed
  have empty: "lower_bound mem first lst v cmp = Some first \<and>
            upper_bound mem first lst v cmp = Some lst" if "first = lst"
    using that
    by (simp add: lower_bound_def upper_bound_def lower_bound_loop.simps upper_bound_loop.simps)
  show ?thesis
    using ret shrink one empty by blast
qed

theorem bisection_terminates_witness:
  "(0::nat) \<le> 6 \<and>
   lower_bound S6 0 6 3 (<) = Some 1 \<and> upper_bound S6 0 6 3 (<) = Some 4 \<and>
   lower_bound_step S6 3 (<) (0, 6) = (0, 3) \<and> upper_bound_step S6 3 (<) (0, 6) = (4, 6) \<and>
   distance 0 3 < distance 0 6 \<and> distance 4 6 < distance 0 6"
proof -
  have h: "(0::nat) \<le> 6" by simp
  have lb: "lower_bound S6 0 6 3 (<) = Some 1"
    by (simp add: lower_bound_def lower_bound_loop.simps lower_bound_step_def advance_def
        distance_def S6_def Let_def signed_divide_int_def)
  have ub: "upper_bound S6 0 6 3 (<) = Some 4"
    by (simp add: upper_bound_def upper_bound_loop.simps upper_bound_step_def advance_def
        distance_def S6_def Let_def signed_divide_int_def)
  have ls: "lower_bound_step S6 3 (<) (0, 6) = (0, 3)"
    by (simp add: lower_bound_step_def advance_def distance_def S6_def Let_def signed_divide_int_def)
  have us: "upper_bound_step S6 3 (<) (0, 6) = (4, 6)"
    by (simp add: upper_bound_step_def advance_def distance_def S6_def Let_def signed_divide_int_def)
  show ?thesis
    using bisection_terminates [OF h, of S6 3 "(<)"] lb ub ls us
    by (simp add: distance_def)
qed

text \<open>
  C4 (amended). On every range sorted under a strict weak order, and for every value,
  \<open>lower_bound\<close> returns the leftmost position \<open>p\<close> of the range such that no element at or
  after \<open>p\<close> satisfies \<open>cmp element value\<close>; every element before \<open>p\<close> satisfies it. This
  \<open>p\<close> is the first position at which the value can be inserted while keeping the range
  ordered, so it is at the front of any run of elements equivalent to the value.
\<close>

theorem lower_bound_leftmost:
  assumes "first \<le> lst" and "strict_weak_order cmp" and "sorted_range cmp mem first lst"
  shows "\<exists>p. lower_bound mem first lst v cmp = Some p \<and> first \<le> p \<and> p \<le> lst \<and>
           (\<forall>i\<in>{p..<lst}. \<not> cmp (mem i) v) \<and>
           (\<forall>q. first \<le> q \<and> q \<le> lst \<and> (\<forall>i\<in>{q..<lst}. \<not> cmp (mem i) v) \<longrightarrow> p \<le> q) \<and>
           (\<forall>i\<in>{first..<p}. cmp (mem i) v) \<and>
           insertion_point cmp mem first lst v p \<and>
           (\<forall>q. insertion_point cmp mem first lst v q \<longrightarrow> p \<le> q)"
proof -
  from lower_bound_sorted [OF assms, of v] obtain p where
    all: "lower_bound mem first lst v cmp = Some p \<and> first \<le> p \<and> p \<le> lst \<and>
           (\<forall>i. first \<le> i \<and> i < p \<longrightarrow> cmp (mem i) v) \<and>
           (\<forall>i. p \<le> i \<and> i < lst \<longrightarrow> \<not> cmp (mem i) v)"
    ..
  then have p: "lower_bound mem first lst v cmp = Some p" "first \<le> p" "p \<le> lst"
    by simp_all
  have below: "cmp (mem i) v" if "first \<le> i" "i < p" for i
    using all that by blast
  have above: "\<not> cmp (mem i) v" if "p \<le> i" "i < lst" for i
    using all that by blast
  have asym: "\<And>x y. cmp x y \<Longrightarrow> \<not> cmp y x"
    using assms(2) unfolding strict_weak_order_def by blast
  have c1: "\<forall>i\<in>{p..<lst}. \<not> cmp (mem i) v"
    using above by simp
  have c3: "\<forall>i\<in>{first..<p}. cmp (mem i) v"
    using below by simp
  have least: "p \<le> q" if "first \<le> q" "\<forall>i\<in>{q..<lst}. \<not> cmp (mem i) v" for q
  proof (rule ccontr)
    assume "\<not> p \<le> q"
    then have "q < p" by simp
    then have "cmp (mem q) v" "q \<in> {q..<lst}"
      using below [OF that(1)] p(3) by simp_all
    with that(2) show False by blast
  qed
  then have c2: "\<forall>q. first \<le> q \<and> q \<le> lst \<and> (\<forall>i\<in>{q..<lst}. \<not> cmp (mem i) v) \<longrightarrow> p \<le> q"
    by blast
  have "\<forall>i\<in>{first..<p}. \<not> cmp v (mem i)"
    using c3 asym by blast
  then have c4: "insertion_point cmp mem first lst v p"
    using p(2,3) c1 by (simp add: insertion_point_def)
  have c5: "\<forall>q. insertion_point cmp mem first lst v q \<longrightarrow> p \<le> q"
    using least by (simp add: insertion_point_def)
  show ?thesis
    using p c1 c2 c3 c4 c5 by blast
qed

theorem lower_bound_leftmost_witness:
  "(0::nat) \<le> 6 \<and> strict_weak_order ((<) :: int \<Rightarrow> int \<Rightarrow> bool) \<and> sorted_range (<) S6 0 6 \<and>
   lower_bound S6 0 6 3 (<) = Some 1 \<and> S6 0 < 3 \<and> \<not> S6 1 < 3 \<and> \<not> S6 5 < 3 \<and>
   insertion_point (<) S6 0 6 3 1"
proof -
  have h: "(0::nat) \<le> 6" by simp
  have swo: "strict_weak_order ((<) :: int \<Rightarrow> int \<Rightarrow> bool)"
    by (auto simp: strict_weak_order_def)
  have srt: "sorted_range (<) S6 0 6"
    by (auto simp: sorted_range_def S6_def less_Suc_eq numeral_eq_Suc)
  have lb: "lower_bound S6 0 6 3 (<) = Some 1"
    by code_simp
  from lower_bound_leftmost [OF h swo srt, of 3] lb
  have "S6 0 < 3 \<and> \<not> S6 1 < 3 \<and> \<not> S6 5 < 3 \<and> insertion_point (<) S6 0 6 3 1"
    by auto
  then show ?thesis
    using h swo srt lb by blast
qed

text \<open>
  The claim as it is worded asks that no element before the returned position satisfies
  \<open>cmp element value\<close>. In the spec's own scenario the position returned is 1, and the
  element before it, 1, is ordered before the value 3.
\<close>

theorem lower_bound_before_counterexample:
  "strict_weak_order ((<) :: int \<Rightarrow> int \<Rightarrow> bool) \<and> sorted_range (<) S6 0 6 \<and>
   lower_bound S6 0 6 3 (<) = Some 1 \<and> S6 0 < 3"
proof -
  have swo: "strict_weak_order ((<) :: int \<Rightarrow> int \<Rightarrow> bool)"
    by (auto simp: strict_weak_order_def)
  have srt: "sorted_range (<) S6 0 6"
    by (auto simp: sorted_range_def S6_def less_Suc_eq numeral_eq_Suc)
  have lb: "lower_bound S6 0 6 3 (<) = Some 1"
    by code_simp
  have "S6 0 < 3" by (simp add: S6_def)
  then show ?thesis using swo srt lb by simp
qed

text \<open>
  C5. On every range sorted under a strict weak order, and for every value, \<open>upper_bound\<close>
  returns the first position \<open>p\<close> of \<open>[first, lst]\<close> whose element satisfies
  \<open>cmp value element\<close>, and \<open>lst\<close> if there is none. This \<open>p\<close> is the rightmost position at
  which the value can be inserted while keeping the range ordered.
\<close>

theorem upper_bound_rightmost:
  assumes "first \<le> lst" and "strict_weak_order cmp" and "sorted_range cmp mem first lst"
  shows "\<exists>p. upper_bound mem first lst v cmp = Some p \<and> first \<le> p \<and> p \<le> lst \<and>
           (\<forall>i\<in>{first..<p}. \<not> cmp v (mem i)) \<and>
           (p < lst \<longrightarrow> cmp v (mem p)) \<and>
           ((\<forall>i\<in>{first..<lst}. \<not> cmp v (mem i)) \<longrightarrow> p = lst) \<and>
           insertion_point cmp mem first lst v p \<and>
           (\<forall>q. insertion_point cmp mem first lst v q \<longrightarrow> q \<le> p)"
proof -
  from upper_bound_sorted [OF assms, of v] obtain p where
    all: "upper_bound mem first lst v cmp = Some p \<and> first \<le> p \<and> p \<le> lst \<and>
           (\<forall>i. first \<le> i \<and> i < p \<longrightarrow> \<not> cmp v (mem i)) \<and>
           (\<forall>i. p \<le> i \<and> i < lst \<longrightarrow> cmp v (mem i))"
    ..
  then have p: "upper_bound mem first lst v cmp = Some p" "first \<le> p" "p \<le> lst"
    by simp_all
  have below: "\<not> cmp v (mem i)" if "first \<le> i" "i < p" for i
    using all that by blast
  have above: "cmp v (mem i)" if "p \<le> i" "i < lst" for i
    using all that by blast
  have c1: "\<forall>i\<in>{first..<p}. \<not> cmp v (mem i)"
    using below by simp
  have c2: "p < lst \<longrightarrow> cmp v (mem p)"
    using above [of p] by simp
  have c3: "(\<forall>i\<in>{first..<lst}. \<not> cmp v (mem i)) \<longrightarrow> p = lst"
  proof
    assume none: "\<forall>i\<in>{first..<lst}. \<not> cmp v (mem i)"
    show "p = lst"
    proof (rule ccontr)
      assume "p \<noteq> lst"
      with p(3) have "p < lst" by simp
      then have "cmp v (mem p)" "p \<in> {first..<lst}"
        using c2 p(2) by simp_all
      with none show False by blast
    qed
  qed
  have "\<forall>i\<in>{p..<lst}. \<not> cmp (mem i) v"
    using above strict_weak_order_asym [OF assms(2)] by fastforce
  then have c4: "insertion_point cmp mem first lst v p"
    using p(2,3) c1 by (simp add: insertion_point_def)
  have most: "q \<le> p" if "insertion_point cmp mem first lst v q" for q
  proof (rule ccontr)
    assume "\<not> q \<le> p"
    then have "p < q" by simp
    moreover have "q \<le> lst" and before: "\<forall>i\<in>{first..<q}. \<not> cmp v (mem i)"
      using that by (simp_all add: insertion_point_def)
    ultimately have "cmp v (mem p)" "p \<in> {first..<q}"
      using c2 p(2) by simp_all
    with before show False by blast
  qed
  then have c5: "\<forall>q. insertion_point cmp mem first lst v q \<longrightarrow> q \<le> p"
    by blast
  show ?thesis
    using p c1 c2 c3 c4 c5 by blast
qed

theorem upper_bound_rightmost_witness:
  "(0::nat) \<le> 6 \<and> strict_weak_order ((<) :: int \<Rightarrow> int \<Rightarrow> bool) \<and> sorted_range (<) S6 0 6 \<and>
   upper_bound S6 0 6 3 (<) = Some 4 \<and>
   \<not> 3 < S6 0 \<and> \<not> 3 < S6 3 \<and> 3 < S6 4 \<and> insertion_point (<) S6 0 6 3 4"
proof -
  have h: "(0::nat) \<le> 6" by simp
  have swo: "strict_weak_order ((<) :: int \<Rightarrow> int \<Rightarrow> bool)"
    by (auto simp: strict_weak_order_def)
  have srt: "sorted_range (<) S6 0 6"
    by (auto simp: sorted_range_def S6_def less_Suc_eq numeral_eq_Suc)
  have ub: "upper_bound S6 0 6 3 (<) = Some 4"
    by code_simp
  from upper_bound_rightmost [OF h swo srt, of 3] ub
  have "\<not> 3 < S6 0 \<and> \<not> 3 < S6 3 \<and> 3 < S6 4 \<and> insertion_point (<) S6 0 6 3 4"
    by auto
  then show ?thesis
    using h swo srt ub by blast
qed

text \<open>
  C6. On every range sorted under a strict weak order, and for every value, \<open>equal_range\<close>,
  which calls \<open>lower_bound\<close> once and then steps its second cursor forward while it is not
  \<open>lst\<close> and its element is not ordered after the value, returns the pair of the results
  of \<open>lower_bound\<close> and \<open>upper_bound\<close>. Every element of the subrange returned is equivalent
  to the value: neither is ordered before the other.
\<close>

theorem equal_range_is_lower_upper:
  assumes "first \<le> lst" and "strict_weak_order cmp" and "sorted_range cmp mem first lst"
  shows "\<exists>lb ub. lower_bound mem first lst v cmp = Some lb \<and>
           upper_bound mem first lst v cmp = Some ub \<and>
           equal_range mem first lst v cmp = Some (lb, ub) \<and>
           equal_range_scan mem lst v cmp lb = Some ub \<and>
           lb \<le> ub \<and>
           (\<forall>i\<in>{lb..<ub}. \<not> cmp (mem i) v \<and> \<not> cmp v (mem i))"
proof -
  from lower_bound_sorted [OF assms, of v] obtain lb where
    l: "lower_bound mem first lst v cmp = Some lb \<and> first \<le> lb \<and> lb \<le> lst \<and>
           (\<forall>i. first \<le> i \<and> i < lb \<longrightarrow> cmp (mem i) v) \<and>
           (\<forall>i. lb \<le> i \<and> i < lst \<longrightarrow> \<not> cmp (mem i) v)"
    ..
  from upper_bound_sorted [OF assms, of v] obtain ub where
    u: "upper_bound mem first lst v cmp = Some ub \<and> first \<le> ub \<and> ub \<le> lst \<and>
           (\<forall>i. first \<le> i \<and> i < ub \<longrightarrow> \<not> cmp v (mem i)) \<and>
           (\<forall>i. ub \<le> i \<and> i < lst \<longrightarrow> cmp v (mem i))"
    ..
  have le: "lb \<le> ub"
  proof (rule ccontr)
    assume "\<not> lb \<le> ub"
    then have "ub < lb" by simp
    then have "cmp (mem ub) v" and "cmp v (mem ub)"
      using l u by auto
    then show False
      using strict_weak_order_asym [OF assms(2)] by blast
  qed
  have "\<forall>i. lb \<le> i \<and> i < ub \<longrightarrow> i \<noteq> lst \<and> \<not> cmp v (mem i)"
    using l u by auto
  moreover have "ub = lst \<or> cmp v (mem ub)"
    using u by auto
  ultimately have scan: "equal_range_scan mem lst v cmp lb = Some ub"
    by (rule equal_range_scan_stops [OF le])
  have eq: "equal_range mem first lst v cmp = Some (lb, ub)"
    using l scan by (simp add: equal_range_def)
  have equiv: "\<forall>i\<in>{lb..<ub}. \<not> cmp (mem i) v \<and> \<not> cmp v (mem i)"
    using l u by auto
  show ?thesis
    using l u eq scan le equiv by blast
qed

theorem equal_range_is_lower_upper_witness:
  "(0::nat) \<le> 6 \<and> strict_weak_order ((<) :: int \<Rightarrow> int \<Rightarrow> bool) \<and> sorted_range (<) S6 0 6 \<and>
   lower_bound S6 0 6 3 (<) = Some 1 \<and> upper_bound S6 0 6 3 (<) = Some 4 \<and>
   equal_range S6 0 6 3 (<) = Some (1, 4) \<and> \<not> S6 2 < 3 \<and> \<not> 3 < S6 2"
proof -
  have h: "(0::nat) \<le> 6" by simp
  have swo: "strict_weak_order ((<) :: int \<Rightarrow> int \<Rightarrow> bool)"
    by (auto simp: strict_weak_order_def)
  have srt: "sorted_range (<) S6 0 6"
    by (auto simp: sorted_range_def S6_def less_Suc_eq numeral_eq_Suc)
  have lb: "lower_bound S6 0 6 3 (<) = Some 1"
    by code_simp
  have ub: "upper_bound S6 0 6 3 (<) = Some 4"
    by code_simp
  from equal_range_is_lower_upper [OF h swo srt, of 3] lb ub
  have "equal_range S6 0 6 3 (<) = Some (1, 4) \<and> \<not> S6 2 < 3 \<and> \<not> 3 < S6 2"
    by auto
  then show ?thesis
    using h swo srt lb ub by blast
qed

text \<open>
  C7 (amended). \<open>binary_search\<close> returns a cursor, not a truth value. On every range sorted
  under a strict weak order, and for every value, it returns the position found by
  \<open>lower_bound\<close> when that position is not \<open>lst\<close> and its element is not ordered after the
  value, and \<open>lst\<close> otherwise. The cursor returned differs from \<open>lst\<close> if and only if some
  element of the range is equivalent to the value; on an empty range it is \<open>lst\<close>.
\<close>

theorem binary_search_cursor:
  assumes "first \<le> lst" and "strict_weak_order cmp" and "sorted_range cmp mem first lst"
  shows "\<exists>found r. lower_bound mem first lst v cmp = Some found \<and>
           binary_search mem first lst v cmp = Some r \<and>
           r = (if found \<noteq> lst \<and> \<not> cmp v (mem found) then found else lst) \<and>
           ((found \<noteq> lst \<and> \<not> cmp v (mem found)) \<longleftrightarrow>
              (\<exists>i\<in>{first..<lst}. \<not> cmp (mem i) v \<and> \<not> cmp v (mem i))) \<and>
           (r \<noteq> lst \<longleftrightarrow> (\<exists>i\<in>{first..<lst}. \<not> cmp (mem i) v \<and> \<not> cmp v (mem i))) \<and>
           (first = lst \<longrightarrow> r = lst)"
proof -
  from lower_bound_sorted [OF assms, of v] obtain found where
    l: "lower_bound mem first lst v cmp = Some found \<and> first \<le> found \<and> found \<le> lst \<and>
           (\<forall>i. first \<le> i \<and> i < found \<longrightarrow> cmp (mem i) v) \<and>
           (\<forall>i. found \<le> i \<and> i < lst \<longrightarrow> \<not> cmp (mem i) v)"
    ..
  define r where "r = (if found \<noteq> lst \<and> \<not> cmp v (mem found) then found else lst)"
  have bs: "binary_search mem first lst v cmp = Some r"
    using l by (auto simp: binary_search_def r_def)
  have occ: "(found \<noteq> lst \<and> \<not> cmp v (mem found)) \<longleftrightarrow>
      (\<exists>i\<in>{first..<lst}. \<not> cmp (mem i) v \<and> \<not> cmp v (mem i))"
  proof
    assume a: "found \<noteq> lst \<and> \<not> cmp v (mem found)"
    with l have "found \<in> {first..<lst}" "\<not> cmp (mem found) v"
      by auto
    with a show "\<exists>i\<in>{first..<lst}. \<not> cmp (mem i) v \<and> \<not> cmp v (mem i)"
      by blast
  next
    assume "\<exists>i\<in>{first..<lst}. \<not> cmp (mem i) v \<and> \<not> cmp v (mem i)"
    then obtain i where i: "first \<le> i" "i < lst" "\<not> cmp (mem i) v" "\<not> cmp v (mem i)"
      by auto
    have fi: "found \<le> i"
    proof (rule ccontr)
      assume "\<not> found \<le> i"
      then have "i < found" by simp
      with l i(1) have "cmp (mem i) v" by blast
      with i(3) show False by simp
    qed
    with i(2) have ne: "found \<noteq> lst" by simp
    have "\<not> cmp v (mem found)"
    proof
      assume c: "cmp v (mem found)"
      show False
      proof (cases "found = i")
        case True
        with c i(4) show False by simp
      next
        case False
        with fi have "found < i" by simp
        from sorted_range_above [OF assms(2,3) _ this i(2) c] l i(4) show False
          by simp
      qed
    qed
    with ne show "found \<noteq> lst \<and> \<not> cmp v (mem found)" by simp
  qed
  have ret: "r \<noteq> lst \<longleftrightarrow> (\<exists>i\<in>{first..<lst}. \<not> cmp (mem i) v \<and> \<not> cmp v (mem i))"
    unfolding occ [symmetric] by (simp add: r_def)
  have empty: "first = lst \<longrightarrow> r = lst"
    using l by (auto simp: r_def)
  show ?thesis
    using l bs r_def occ ret empty by blast
qed

theorem binary_search_cursor_witness:
  "(0::nat) \<le> 6 \<and> strict_weak_order ((<) :: int \<Rightarrow> int \<Rightarrow> bool) \<and> sorted_range (<) S6 0 6 \<and>
   lower_bound S6 0 6 4 (<) = Some 4 \<and> binary_search S6 0 6 4 (<) = Some 6 \<and>
   lower_bound S6 0 6 3 (<) = Some 1 \<and> binary_search S6 0 6 3 (<) = Some 1"
proof -
  have h: "(0::nat) \<le> 6" by simp
  have swo: "strict_weak_order ((<) :: int \<Rightarrow> int \<Rightarrow> bool)"
    by (auto simp: strict_weak_order_def)
  have srt: "sorted_range (<) S6 0 6"
    by (auto simp: sorted_range_def S6_def less_Suc_eq numeral_eq_Suc)
  have lb4: "lower_bound S6 0 6 4 (<) = Some 4"
    by code_simp
  have lb3: "lower_bound S6 0 6 3 (<) = Some 1"
    by code_simp
  have v4: "3 < S6 4" "\<not> 3 < S6 1" "4 < S6 4"
    by (simp_all add: S6_def)
  from binary_search_cursor [OF h swo srt, of 4] lb4 v4
  have b4: "binary_search S6 0 6 4 (<) = Some 6"
    by auto
  from binary_search_cursor [OF h swo srt, of 3] lb3 v4
  have b3: "binary_search S6 0 6 3 (<) = Some 1"
    by auto
  show ?thesis
    using h swo srt lb4 lb3 b4 b3 by blast
qed

text \<open>
  The claim as it is worded has \<open>binary_search\<close> return true exactly when the value
  occurs, and false on an empty range. The code returns cursors: for the values 1 and 3,
  which both occur in the spec's sequence, it returns the different positions 0 and 1, and
  the cursor 0 it returns for the value 1 is also what it returns on the empty range
  \<open>[0, 0)\<close>, where nothing occurs.
\<close>

theorem binary_search_truth_value_counterexample:
  "S6 0 = 1 \<and> S6 1 = 3 \<and>
   binary_search S6 0 6 1 (<) = Some 0 \<and> binary_search S6 0 6 3 (<) = Some 1 \<and>
   binary_search S6 0 0 1 (<) = Some 0"
proof -
  have "S6 0 = 1" "S6 1 = 3"
    by (simp_all add: S6_def)
  moreover have "binary_search S6 0 6 1 (<) = Some 0"
    by code_simp
  moreover have "binary_search S6 0 6 3 (<) = Some 1"
    by code_simp
  moreover have "binary_search S6 0 0 1 (<) = Some 0"
    by code_simp
  ultimately show ?thesis by simp
qed

section \<open>Claims about the linear scans\<close>

text \<open>
  C1. The claim has \<open>remove_copy_if\<close> copy the elements for which the predicate is false.
  The code copies in the branch \<^verbatim>\<open>if (pred (*first))\<close>: from the range 1, 2, 3, 4, 5 at
  addresses 0 to 4, with the predicate "is even" and the output cursor 10, it writes 2, 4
  and returns the cursor 12, where the claim has 1, 3, 5 and the cursor 13.
\<close>

theorem remove_copy_if_copies_where_pred_holds:
  "range_of M5 0 5 = [1, 2, 3, 4, 5] \<and>
   map_option (\<lambda>(mem', r). (range_of mem' 10 r, r)) (remove_copy_if M5 0 5 10 is_even)
     = Some ([2, 4], 12) \<and>
   filter (\<lambda>x. \<not> is_even x) (range_of M5 0 5) = [1, 3, 5]"
  by code_simp

text \<open>
  C2. The claim has \<open>remove_if\<close> leave the elements for which the predicate is false, the
  length being the original length less \<open>count_if\<close>. In the spec's scenario the code leaves
  the logical range 2, 4 and returns the cursor at position 2, where the claim has 1, 3, 5
  and position 3; the length left is \<open>count_if\<close> itself.
\<close>

theorem remove_if_keeps_where_pred_holds:
  "range_of M5 0 5 = [1, 2, 3, 4, 5] \<and>
   map_option (\<lambda>(mem', new_last). (range_of mem' 0 new_last, new_last)) (remove_if M5 0 5 is_even)
     = Some ([2, 4], 2) \<and>
   count_if M5 0 5 is_even = Some 2"
  by code_simp

text \<open>
  C3. The claim has \<open>replace_copy_if\<close> return the output cursor advanced by the length of
  the range. The code writes the elements the claim describes, and then reaches the end
  of the function without a \<^verbatim>\<open>return\<close> statement: no cursor is handed back.
\<close>

theorem replace_copy_if_returns_nothing:
  "range_of M5 0 5 = [1, 2, 3, 4, 5] \<and>
   map_option (\<lambda>(mem', r). (range_of mem' 10 15, r)) (replace_copy_if M5 0 5 10 is_even 0)
     = Some ([1, 0, 3, 0, 5], No_return_statement)"
  by code_simp

text \<open>
  C9. On every valid range, \<open>replace_if\<close> returns, and in the store it leaves every
  element of the range for which the predicate is false is unchanged, every element of
  the range for which it holds is \<open>new_value\<close>, and every address outside the range holds
  what it held before.
\<close>

theorem replace_if_frame:
  assumes "first \<le> lst"
  shows "\<exists>mem'. replace_if mem first lst pred new_value = Some mem' \<and>
           (\<forall>a\<in>{first..<lst}. \<not> pred (mem a) \<longrightarrow> mem' a = mem a) \<and>
           (\<forall>a\<in>{first..<lst}. pred (mem a) \<longrightarrow> mem' a = new_value) \<and>
           (\<forall>a. a \<notin> {first..<lst} \<longrightarrow> mem' a = mem a)"
proof (intro exI conjI)
  show "replace_if mem first lst pred new_value =
      Some (\<lambda>a. if first \<le> a \<and> a < lst \<and> pred (mem a) then new_value else mem a)"
    by (rule replace_if_effect [OF assms])
  show "\<forall>a\<in>{first..<lst}. \<not> pred (mem a) \<longrightarrow>
      (if first \<le> a \<and> a < lst \<and> pred (mem a) then new_value else mem a) = mem a"
    by simp
  show "\<forall>a\<in>{first..<lst}. pred (mem a) \<longrightarrow>
      (if first \<le> a \<and> a < lst \<and> pred (mem a) then new_value else mem a) = new_value"
    by simp
  show "\<forall>a. a \<notin> {first..<lst} \<longrightarrow>
      (if first \<le> a \<and> a < lst \<and> pred (mem a) then new_value else mem a) = mem a"
    by simp
qed

theorem replace_if_frame_witness:
  "(0::nat) \<le> 5 \<and>
   map_option (\<lambda>m. (m 0, m 1, m 2, m 3, m 4, m 5)) (replace_if M5 0 5 is_even 9)
     = Some (1, 9, 3, 9, 5, M5 5)"
proof -
  have h: "(0::nat) \<le> 5" by simp
  have vals: "M5 0 = 1" "M5 1 = 2" "M5 2 = 3" "M5 3 = 4" "M5 4 = 5"
    by (simp_all add: M5_def)
  from replace_if_frame [OF h, of M5 is_even 9] obtain mem' where
    m: "replace_if M5 0 5 is_even 9 = Some mem'"
      "\<forall>a\<in>{0..<5}. \<not> is_even (M5 a) \<longrightarrow> mem' a = M5 a"
      "\<forall>a\<in>{0..<5}. is_even (M5 a) \<longrightarrow> mem' a = 9"
      "\<forall>a. a \<notin> {0..<5} \<longrightarrow> mem' a = M5 a"
    by blast
  have "mem' 0 = 1" "mem' 2 = 3" "mem' 4 = 5"
    using m(2) vals by (simp_all add: is_even_def)
  moreover have "mem' 1 = 9" "mem' 3 = 9"
    using m(3) vals by (simp_all add: is_even_def)
  moreover have "mem' 5 = M5 5"
    using m(4) by simp
  ultimately show ?thesis
    using h m(1) by simp
qed

text \<open>
  C10. On every valid first range, \<open>mismatch\<close> returns a pair of cursors that are the same
  distance from \<open>first1\<close> and from \<open>first2\<close>, the first of them within the first range, and
  the predicate holds of every pair of corresponding elements before that offset.
\<close>

theorem mismatch_same_offset:
  assumes "first1 \<le> last1"
  shows "\<exists>r1 r2. mismatch mem first1 last1 first2 cmp = Some (r1, r2) \<and>
           first1 \<le> r1 \<and> r1 \<le> last1 \<and>
           distance first1 r1 = distance first2 r2 \<and>
           (\<forall>k<nat (distance first1 r1). cmp (mem (advance first1 (int k))) (mem (advance first2 (int k))))"
proof -
  from mismatch_offset [OF assms, of mem first2 cmp] obtain n where
    n: "mismatch mem first1 last1 first2 cmp = Some (first1 + n, first2 + n)"
      "first1 + n \<le> last1"
      "\<forall>k<n. cmp (mem (first1 + k)) (mem (first2 + k))"
    by blast
  have d: "distance first1 (first1 + n) = int n" "distance first2 (first2 + n) = int n"
    by (simp_all add: distance_def)
  have a: "advance first1 (int k) = first1 + k" "advance first2 (int k) = first2 + k" for k
    by (simp_all add: advance_def)
  show ?thesis
    using n by (intro exI [of _ "first1 + n"] exI [of _ "first2 + n"]) (simp add: d a)
qed

theorem mismatch_same_offset_witness:
  "(1::nat) \<le> 5 \<and> mismatch S6 1 5 2 (=) = Some (3, 4) \<and>
   distance 1 3 = distance 2 4 \<and> S6 1 = S6 2 \<and> S6 2 = S6 3"
proof -
  have h: "(1::nat) \<le> 5" by simp
  have m: "mismatch S6 1 5 2 (=) = Some (3, 4)"
    by code_simp
  from mismatch_same_offset [OF h, of S6 2 "(=)"] m
  have all: "distance 1 3 = distance 2 4 \<and>
      (\<forall>k<nat (distance 1 3). S6 (advance 1 (int k)) = S6 (advance 2 (int k)))"
    by simp
  have pair: "S6 (advance 1 (int k)) = S6 (advance 2 (int k))" if "k < 2" for k
    using all that by (simp add: distance_def)
  have "S6 (advance 1 (int 0)) = S6 (advance 2 (int 0))"
    "S6 (advance 1 (int 1)) = S6 (advance 2 (int 1))"
    by (rule pair, simp)+
  then have "S6 1 = S6 2" "S6 2 = S6 3"
    by (simp_all add: advance_def)
  then show ?thesis
    using h m all by simp
qed

end
